theory Spec2Isabelle
  imports Complex_Main "HOL-Library.Sublist"
begin

section \<open>Text and whitespace\<close>

text \<open>
  A Python \<^verbatim>\<open>str\<close> is a sequence of Unicode code points; a text is modelled as the list
  of its code points. \<^verbatim>\<open>str.strip()\<close> without argument removes leading and trailing
  characters for which \<^verbatim>\<open>str.isspace\<close> holds; these are the code points below.
\<close>

type_synonym pystr = "nat list"

definition py_isspace :: "nat \<Rightarrow> bool" where
  "py_isspace c =
     ((9 \<le> c \<and> c \<le> 13) \<or> (28 \<le> c \<and> c \<le> 32) \<or> c = 133 \<or> c = 160 \<or> c = 5760
      \<or> (8192 \<le> c \<and> c \<le> 8202) \<or> c = 8232 \<or> c = 8233 \<or> c = 8239 \<or> c = 8287
      \<or> c = 12288)"

definition strip :: "pystr \<Rightarrow> pystr" where
  "strip t = rev (dropWhile py_isspace (rev (dropWhile py_isspace t)))"

text \<open>The test \<^verbatim>\<open>text and text.strip()\<close>: a string is truthy when it is not empty.\<close>

definition speakable :: "pystr \<Rightarrow> bool" where
  "speakable t = (t \<noteq> [] \<and> strip t \<noteq> [])"

definition text_of :: "string \<Rightarrow> pystr" where
  "text_of cs = map of_char cs"

section \<open>The speech engine as an external collaborator\<close>

text \<open>
  The engine library (pyttsx3) is not part of the program. It is a parameter of the model:
  an environment that decides, from the calls made so far, what the next call does.
  Engine objects are identified by a number. Every call the program makes is appended to
  the list \<open>calls\<close> of the state, in the order in which it is made.
\<close>

datatype pval = PInt int | PFloat real | PStr string

record voice =
  vid :: string
  vname :: string

datatype call =
    PyInit
  | EndLoop nat
  | SetProperty nat string pval
  | GetVoices nat
  | Say nat pystr
  | RunAndWait nat

datatype init_result = InitRaises | InitNone | InitEngine nat

text \<open>
  \<open>e_init env cs\<close> is the outcome of \<^verbatim>\<open>pyttsx3.init()\<close> called after the calls \<open>cs\<close>;
  \<open>e_raises env cs c\<close> tells whether the call \<open>c\<close>, made after the calls \<open>cs\<close>, raises;
  \<open>e_voices env cs h\<close> is the list returned by \<^verbatim>\<open>getProperty("voices")\<close> on engine \<open>h\<close>,
  where \<open>cs\<close> are the calls up to and including that one.
\<close>

record engine_env =
  e_init :: "call list \<Rightarrow> init_result"
  e_raises :: "call list \<Rightarrow> call \<Rightarrow> bool"
  e_voices :: "call list \<Rightarrow> nat \<Rightarrow> voice list"

datatype exn = EngineError | AttributeError | RuntimeError | IndexError

section \<open>State of a TextToSpeech object and of its worker thread\<close>

text \<open>
  The program points of \<^verbatim>\<open>_speech_worker\<close> at which the thread can be observed:
  \<open>Starting\<close> (before the first \<^verbatim>\<open>init_engine()\<close>), \<open>LoopHead\<close> (the test of the
  \<^verbatim>\<open>while\<close>), \<open>Getting\<close> (in \<^verbatim>\<open>speech_queue.get(timeout=1.0)\<close>), \<open>Speaking t\<close> (a
  speakable text has been taken, \<^verbatim>\<open>say\<close> not yet called), \<open>Waiting h t\<close> (inside
  \<^verbatim>\<open>runAndWait()\<close> of engine \<open>h\<close>), \<open>Cleanup\<close> (after the loop) and \<open>Stopped\<close> (the
  thread has returned).
\<close>

datatype wpc = Starting | LoopHead | Getting | Speaking pystr | Waiting nat pystr | Cleanup | Stopped

text \<open>
  \<open>engine\<close> is \<^verbatim>\<open>self.engine\<close>, \<open>speech_queue\<close> the queue (\<open>None\<close> is the shutdown signal),
  \<open>is_running\<close> the flag, \<open>worker_engine\<close> the local variable of the worker (\<open>None\<close> as in
  the source), \<open>pc\<close> the program point of the worker.
\<close>

record tts =
  engine :: nat
  speech_queue :: "pystr option list"
  is_running :: bool
  worker_engine :: "nat option"
  pc :: wpc
  calls :: "call list"

type_synonym outcome = "exn option \<times> tts"

definition engine_call :: "engine_env \<Rightarrow> call \<Rightarrow> tts \<Rightarrow> outcome" where
  "engine_call env c s =
     (if e_raises env (calls s) c then Some EngineError else None, s\<lparr>calls := calls s @ [c]\<rparr>)"

text \<open>Sequencing inside a \<^verbatim>\<open>try\<close> block: an exception skips the rest of the block.\<close>

definition then_do :: "outcome \<Rightarrow> (tts \<Rightarrow> outcome) \<Rightarrow> outcome" where
  "then_do r f = (case r of (None, s) \<Rightarrow> f s | (Some e, s) \<Rightarrow> (Some e, s))"

section \<open>The worker: init_engine and the loop\<close>

text \<open>Lines 97 to 102: close the old engine; whatever \<^verbatim>\<open>endLoop\<close> raises is dropped.\<close>

definition close_engine :: "engine_env \<Rightarrow> tts \<Rightarrow> tts" where
  "close_engine env s =
     (case worker_engine s of
        None \<Rightarrow> s
      | Some h \<Rightarrow> (snd (engine_call env (EndLoop h) s))\<lparr>worker_engine := None\<rparr>)"

text \<open>
  Lines 105 to 112: a fresh engine with rate 100, volume 1.0 and the first voice. When
  \<^verbatim>\<open>pyttsx3.init()\<close> returns \<^verbatim>\<open>None\<close>, the call of \<^verbatim>\<open>setProperty\<close> on it raises.
\<close>

definition create_engine :: "engine_env \<Rightarrow> tts \<Rightarrow> outcome" where
  "create_engine env s =
     (case e_init env (calls s) of
        InitRaises \<Rightarrow> (Some EngineError, s\<lparr>calls := calls s @ [PyInit]\<rparr>)
      | InitNone \<Rightarrow> (Some AttributeError, s\<lparr>calls := calls s @ [PyInit]\<rparr>)
      | InitEngine h \<Rightarrow>
          then_do (engine_call env (SetProperty h ''rate'' (PInt 100))
                     (s\<lparr>worker_engine := Some h, calls := calls s @ [PyInit]\<rparr>))
            (\<lambda>s1. then_do (engine_call env (SetProperty h ''volume'' (PFloat 1)) s1)
              (\<lambda>s2. then_do (engine_call env (GetVoices h) s2)
                (\<lambda>s3. case e_voices env (calls s3) h of
                         [] \<Rightarrow> (None, s3)
                       | v # vs \<Rightarrow> engine_call env (SetProperty h ''voice'' (PStr (vid v))) s3))))"

text \<open>\<^verbatim>\<open>init_engine\<close>: \<^verbatim>\<open>True\<close> when the block ran through, \<^verbatim>\<open>False\<close> on any exception.\<close>

definition init_engine :: "engine_env \<Rightarrow> tts \<Rightarrow> bool \<times> tts" where
  "init_engine env s =
     (case create_engine env (close_engine env s) of
        (None, s') \<Rightarrow> (True, s')
      | (Some e, s') \<Rightarrow> (False, s'))"

text \<open>
  Lines 132 and 133 up to the point where \<^verbatim>\<open>runAndWait()\<close> blocks. A call of \<^verbatim>\<open>say\<close>
  on \<^verbatim>\<open>None\<close> raises without reaching any engine.
\<close>

definition speak_try :: "engine_env \<Rightarrow> pystr \<Rightarrow> tts \<Rightarrow> outcome" where
  "speak_try env t s =
     (case worker_engine s of
        None \<Rightarrow> (Some AttributeError, s)
      | Some h \<Rightarrow>
          then_do (engine_call env (Say h t) s)
            (\<lambda>s1. (None, s1\<lparr>calls := calls s1 @ [RunAndWait h]\<rparr>)))"

text \<open>
  One step of the worker thread. In \<open>Getting\<close>, an empty queue stands for the timeout of
  \<^verbatim>\<open>get\<close> (\<^verbatim>\<open>queue.Empty\<close>, then \<^verbatim>\<open>continue\<close>). In \<open>Waiting h t\<close> the call of
  \<^verbatim>\<open>runAndWait\<close> returns or raises; line 139 follows in the first case, line 145 in the
  second.
\<close>

definition worker_step :: "engine_env \<Rightarrow> tts \<Rightarrow> tts" where
  "worker_step env s =
     (case pc s of
        Starting \<Rightarrow>
          (case init_engine env s of
             (True, s') \<Rightarrow> s'\<lparr>pc := LoopHead\<rparr>
           | (False, s') \<Rightarrow> s'\<lparr>pc := Stopped\<rparr>)
      | LoopHead \<Rightarrow> (if is_running s then s\<lparr>pc := Getting\<rparr> else s\<lparr>pc := Cleanup\<rparr>)
      | Getting \<Rightarrow>
          (case speech_queue s of
             [] \<Rightarrow> s\<lparr>pc := LoopHead\<rparr>
           | None # q \<Rightarrow> s\<lparr>speech_queue := q, pc := Cleanup\<rparr>
           | Some t # q \<Rightarrow>
               (if speakable t then s\<lparr>speech_queue := q, pc := Speaking t\<rparr>
                else s\<lparr>speech_queue := q, pc := LoopHead\<rparr>))
      | Speaking t \<Rightarrow>
          (case speak_try env t s of
             (None, s') \<Rightarrow> s'\<lparr>pc := Waiting (the (worker_engine s)) t\<rparr>
           | (Some e, s') \<Rightarrow> (snd (init_engine env s'))\<lparr>pc := LoopHead\<rparr>)
      | Waiting h t \<Rightarrow>
          (if e_raises env (calls s) (RunAndWait h)
           then (snd (init_engine env s))\<lparr>pc := LoopHead\<rparr>
           else (case init_engine env s of (ok, s') \<Rightarrow> s'\<lparr>pc := LoopHead\<rparr>))
      | Cleanup \<Rightarrow>
          (case worker_engine s of
             None \<Rightarrow> s\<lparr>pc := Stopped\<rparr>
           | Some h \<Rightarrow> (snd (engine_call env (EndLoop h) s))\<lparr>pc := Stopped\<rparr>)
      | Stopped \<Rightarrow> s)"

primrec steps :: "engine_env \<Rightarrow> nat \<Rightarrow> tts \<Rightarrow> tts" where
  "steps env 0 s = s"
| "steps env (Suc n) s = steps env n (worker_step env s)"

section \<open>The public methods\<close>

text \<open>
  \<^verbatim>\<open>voices[voice_index]\<close> with a Python integer: a negative index counts from the end,
  and an index out of range raises.
\<close>

definition py_index :: "'a list \<Rightarrow> int \<Rightarrow> exn + 'a" where
  "py_index xs i =
     (if 0 \<le> i \<and> i < int (length xs) then Inr (xs ! nat i)
      else if i < 0 \<and> - int (length xs) \<le> i then Inr (xs ! nat (int (length xs) + i))
      else Inl IndexError)"

text \<open>
  \<^verbatim>\<open>__init__\<close>: every exception is logged and raised again (\<open>Inl\<close>). On success the
  queue is empty, the flag is set and the worker thread has been started.
\<close>

definition tts_init :: "engine_env \<Rightarrow> int \<Rightarrow> int \<Rightarrow> exn + tts" where
  "tts_init env rate voice_index =
     (case e_init env [] of
        InitRaises \<Rightarrow> Inl EngineError
      | InitNone \<Rightarrow> Inl RuntimeError
      | InitEngine h \<Rightarrow>
          (let c1 = [PyInit];
               c2 = c1 @ [SetProperty h ''rate'' (PInt rate)];
               c3 = c2 @ [SetProperty h ''volume'' (PFloat 1)];
               c4 = c3 @ [GetVoices h];
               voices = e_voices env c4 h;
               started = (\<lambda>cs. \<lparr>engine = h, speech_queue = [], is_running = True,
                                worker_engine = None, pc = Starting, calls = cs\<rparr>)
           in if e_raises env c1 (SetProperty h ''rate'' (PInt rate)) then Inl EngineError
              else if e_raises env c2 (SetProperty h ''volume'' (PFloat 1)) then Inl EngineError
              else if e_raises env c3 (GetVoices h) then Inl EngineError
              else if voice_index < int (length voices) then
                (case py_index voices voice_index of
                   Inl e \<Rightarrow> Inl e
                 | Inr v \<Rightarrow>
                     (if e_raises env c4 (SetProperty h ''voice'' (PStr (vid v)))
                      then Inl EngineError
                      else Inr (started (c4 @ [SetProperty h ''voice'' (PStr (vid v))]))))
              else Inr (started c4)))"

definition speak :: "pystr \<Rightarrow> tts \<Rightarrow> tts" where
  "speak t s =
     (if \<not> (t \<noteq> []) \<or> \<not> (strip t \<noteq> []) then s
      else s\<lparr>speech_queue := speech_queue s @ [Some t]\<rparr>)"

definition speak_blocking :: "pystr \<Rightarrow> tts \<Rightarrow> tts" where
  "speak_blocking t s =
     (if t \<noteq> [] \<and> strip t \<noteq> [] then s\<lparr>speech_queue := speech_queue s @ [Some t]\<rparr> else s)"

text \<open>\<^verbatim>\<open>set_property\<close> calls \<^verbatim>\<open>self.engine.setProperty\<close>; an exception is logged and dropped.\<close>

definition set_property :: "engine_env \<Rightarrow> string \<Rightarrow> pval \<Rightarrow> tts \<Rightarrow> tts" where
  "set_property env name v s = snd (engine_call env (SetProperty (engine s) name v) s)"

text \<open>
  \<^verbatim>\<open>speech_thread.join(timeout=3)\<close> returns when the worker thread has returned or when
  three seconds have passed, whichever comes first. Time is not part of the model: the
  argument \<open>k\<close> is the number of steps the worker completes before the timeout expires
  (none at all while it is blocked inside a long \<^verbatim>\<open>runAndWait()\<close>).
\<close>

fun join :: "engine_env \<Rightarrow> nat \<Rightarrow> tts \<Rightarrow> tts" where
  "join env 0 s = s"
| "join env (Suc k) s = (if pc s = Stopped then s else join env k (worker_step env s))"

definition stop :: "engine_env \<Rightarrow> nat \<Rightarrow> tts \<Rightarrow> tts" where
  "stop env k s =
     (let s1 = s\<lparr>is_running := False\<rparr>;
          s2 = s1\<lparr>speech_queue := speech_queue s1 @ [None]\<rparr>
      in if pc s2 \<noteq> Stopped then join env k s2 else s2)"

section \<open>Runs: the caller's calls interleaved with steps of the worker\<close>

datatype action =
    Speak pystr
  | SpeakBlocking pystr
  | SetProp string pval
  | Stop nat
  | Work

fun act :: "engine_env \<Rightarrow> action \<Rightarrow> tts \<Rightarrow> tts" where
  "act env (Speak t) s = speak t s"
| "act env (SpeakBlocking t) s = speak_blocking t s"
| "act env (SetProp name v) s = set_property env name v s"
| "act env (Stop k) s = stop env k s"
| "act env Work s = worker_step env s"

fun run :: "engine_env \<Rightarrow> action list \<Rightarrow> tts \<Rightarrow> tts" where
  "run env [] s = s"
| "run env (a # as) s = run env as (act env a s)"

section \<open>Observations on the list of calls\<close>

text \<open>The texts passed to \<^verbatim>\<open>say\<close>, in the order of the calls.\<close>

fun says :: "call list \<Rightarrow> pystr list" where
  "says [] = []"
| "says (Say h t # cs) = t # says cs"
| "says (c # cs) = says cs"

section \<open>Engines used to run the model on concrete inputs\<close>

text \<open>
  An engine library on which every call succeeds: each \<^verbatim>\<open>pyttsx3.init()\<close> returns a new
  engine, numbered by the calls of \<^verbatim>\<open>init\<close> so far, with two voices.
\<close>

definition two_voices :: "voice list" where
  "two_voices = [\<lparr>vid = ''voice0'', vname = ''First''\<rparr>, \<lparr>vid = ''voice1'', vname = ''Second''\<rparr>]"

definition good_env :: engine_env where
  "good_env = \<lparr>e_init = (\<lambda>cs. InitEngine (count_list cs PyInit)),
               e_raises = (\<lambda>cs c. False),
               e_voices = (\<lambda>cs h. two_voices)\<rparr>"

text \<open>The object that \<^verbatim>\<open>TextToSpeech(rate=100, voice_index=0)\<close> yields on that engine.\<close>

definition started_tts :: tts where
  "started_tts =
     \<lparr>engine = 0, speech_queue = [], is_running = True, worker_engine = None, pc = Starting,
      calls = [PyInit, SetProperty 0 ''rate'' (PInt 100), SetProperty 0 ''volume'' (PFloat 1),
               GetVoices 0, SetProperty 0 ''voice'' (PStr ''voice0'')]\<rparr>"

text \<open>An engine library that can be initialised once, for the caller, and never again.\<close>

definition no_engine_env :: engine_env where
  "no_engine_env = good_env\<lparr>e_init := (\<lambda>cs. if cs = [] then InitEngine 0 else InitRaises)\<rparr>"

text \<open>What a call of the caller puts on the queue, and the engine calls it makes itself.\<close>

fun puts :: "action \<Rightarrow> pystr option list" where
  "puts (Speak t) = (if speakable t then [Some t] else [])"
| "puts (SpeakBlocking t) = (if speakable t then [Some t] else [])"
| "puts (Stop k) = [None]"
| "puts a = []"

fun caller_calls :: "nat \<Rightarrow> action \<Rightarrow> call list" where
  "caller_calls h (SetProp name v) = [SetProperty h name v]"
| "caller_calls h a = []"

text \<open>A state in which the worker has just taken the text \<^verbatim>\<open>hi\<close> from the queue.\<close>

definition speaking_tts :: tts where
  "speaking_tts =
     \<lparr>engine = 0, speech_queue = [], is_running = True, worker_engine = Some 1,
      pc = Speaking (text_of ''hi''), calls = [PyInit, PyInit]\<rparr>"


text \<open>
  Once \<^verbatim>\<open>is_running\<close> is \<^verbatim>\<open>False\<close>: a bound on the steps the worker still takes from a
  program point until it has returned.
\<close>

fun steps_to_exit :: "wpc \<Rightarrow> nat" where
  "steps_to_exit Starting = 3"
| "steps_to_exit LoopHead = 2"
| "steps_to_exit Getting = 5"
| "steps_to_exit (Speaking t) = 4"
| "steps_to_exit (Waiting h t) = 3"
| "steps_to_exit Cleanup = 1"
| "steps_to_exit Stopped = 0"

text \<open>
  The text the worker will still pass to \<^verbatim>\<open>say\<close> although the flag is cleared: the one it
  has taken already, or the one it is about to take from the head of the queue.
\<close>

definition committed :: "tts \<Rightarrow> pystr list" where
  "committed s =
     (case pc s of
        Speaking t \<Rightarrow> [t]
      | Getting \<Rightarrow>
          (case speech_queue s of
             Some t # q \<Rightarrow> (if speakable t then [t] else [])
           | _ \<Rightarrow> [])
      | _ \<Rightarrow> [])"

text \<open>
  The situation after \<^verbatim>\<open>stop\<close> has cleared the flag and put the shutdown signal: a worker
  that waits in \<^verbatim>\<open>get\<close> finds at least that signal on the queue.
\<close>

definition closing :: "tts \<Rightarrow> bool" where
  "closing s = (\<not> is_running s \<and> (pc s = Getting \<longrightarrow> None \<in> set (speech_queue s)))"

text \<open>
  The state reached from \<open>started_tts\<close> by \<^verbatim>\<open>speak("hi")\<close> and four steps of the worker:
  the worker is inside \<^verbatim>\<open>runAndWait()\<close>.
\<close>

definition waiting_tts :: tts where
  "waiting_tts =
     \<lparr>engine = 0, speech_queue = [], is_running = True, worker_engine = Some 1,
      pc = Waiting 1 (text_of ''hi''),
      calls = [PyInit, SetProperty 0 ''rate'' (PInt 100), SetProperty 0 ''volume'' (PFloat 1),
               GetVoices 0, SetProperty 0 ''voice'' (PStr ''voice0''),
               PyInit, SetProperty 1 ''rate'' (PInt 100), SetProperty 1 ''volume'' (PFloat 1),
               GetVoices 1, SetProperty 1 ''voice'' (PStr ''voice0''),
               Say 1 (text_of ''hi''), RunAndWait 1]\<rparr>"



section \<open>Whitespace\<close>

lemma strip_empty_iff: "strip t = [] \<longleftrightarrow> (\<forall>c \<in> set t. py_isspace c)"
proof
  assume "strip t = []"
  then have all: "\<forall>c \<in> set (dropWhile py_isspace t). py_isspace c"
    by (simp add: strip_def)
  have "dropWhile py_isspace t = []"
  proof (rule ccontr)
    assume ne: "dropWhile py_isspace t \<noteq> []"
    then have "\<not> py_isspace (hd (dropWhile py_isspace t))"
      by (rule hd_dropWhile)
    moreover from ne have "hd (dropWhile py_isspace t) \<in> set (dropWhile py_isspace t)"
      by (rule hd_in_set)
    ultimately show False
      using all by blast
  qed
  then show "\<forall>c \<in> set t. py_isspace c"
    by simp
next
  assume "\<forall>c \<in> set t. py_isspace c"
  then show "strip t = []"
    by (auto simp: strip_def dest: set_dropWhileD)
qed

lemma speakable_iff: "speakable t \<longleftrightarrow> (\<exists>c \<in> set t. \<not> py_isspace c)"
  by (cases t) (auto simp: speakable_def strip_empty_iff)

section \<open>What init_engine does to the state\<close>

lemma says_append: "says (xs @ ys) = says xs @ says ys"
  by (induction xs rule: says.induct) simp_all

lemma engine_call_fields:
  "engine (snd (engine_call env c s)) = engine s"
  "speech_queue (snd (engine_call env c s)) = speech_queue s"
  "is_running (snd (engine_call env c s)) = is_running s"
  "worker_engine (snd (engine_call env c s)) = worker_engine s"
  "pc (snd (engine_call env c s)) = pc s"
  "calls (snd (engine_call env c s)) = calls s @ [c]"
  by (simp_all add: engine_call_def)

lemma close_engine_fields:
  "engine (close_engine env s) = engine s"
  "speech_queue (close_engine env s) = speech_queue s"
  "is_running (close_engine env s) = is_running s"
  "worker_engine (close_engine env s) = None"
  "pc (close_engine env s) = pc s"
  "calls (close_engine env s) = calls s @ (case worker_engine s of None \<Rightarrow> [] | Some h \<Rightarrow> [EndLoop h])"
  by (simp_all add: close_engine_def engine_call_fields split: option.splits)

lemma create_engine_fields:
  "engine (snd (create_engine env s)) = engine s"
  "speech_queue (snd (create_engine env s)) = speech_queue s"
  "is_running (snd (create_engine env s)) = is_running s"
  "pc (snd (create_engine env s)) = pc s"
  by (simp_all add: create_engine_def then_do_def engine_call_def split: init_result.splits list.splits)

lemma create_engine_calls:
  "\<exists>cs. calls (snd (create_engine env s)) = calls s @ PyInit # cs \<and> says cs = []"
  by (simp add: create_engine_def then_do_def engine_call_def split: init_result.splits list.splits)

lemma init_engine_snd: "snd (init_engine env s) = snd (create_engine env (close_engine env s))"
  by (simp add: init_engine_def split: prod.splits option.splits)

lemma init_engine_fields:
  "engine (snd (init_engine env s)) = engine s"
  "speech_queue (snd (init_engine env s)) = speech_queue s"
  "is_running (snd (init_engine env s)) = is_running s"
  "pc (snd (init_engine env s)) = pc s"
  by (simp_all add: init_engine_snd create_engine_fields close_engine_fields)

lemma init_engine_calls:
  "\<exists>cs. calls (snd (init_engine env s)) =
          calls s @ (case worker_engine s of None \<Rightarrow> [] | Some h \<Rightarrow> [EndLoop h]) @ PyInit # cs
        \<and> says cs = []"
  using create_engine_calls [of env "close_engine env s"]
  by (auto simp: init_engine_snd close_engine_fields)

lemma init_engine_says: "says (calls (snd (init_engine env s))) = says (calls s)"
  using init_engine_calls [of env s]
  by (auto simp: says_append split: option.splits)

lemma init_engine_handle:
  "worker_engine (snd (init_engine env s)) =
     (case e_init env (calls s @ (case worker_engine s of None \<Rightarrow> [] | Some h \<Rightarrow> [EndLoop h])) of
        InitRaises \<Rightarrow> None | InitNone \<Rightarrow> None | InitEngine h \<Rightarrow> Some h)"
  by (simp add: init_engine_snd create_engine_def close_engine_def then_do_def engine_call_def
      split: init_result.splits list.splits option.splits)

section \<open>The public methods on concrete and arbitrary inputs\<close>


text \<open>
  Claim C4. For a text that is empty or consists of whitespace only, \<^verbatim>\<open>speak\<close> leaves the
  whole state as it is: nothing is put on the queue and no call reaches an engine. Should
  such a text be at the head of the queue all the same, the worker drops it without a call.
\<close>

theorem speak_blank_noop:
  assumes "\<forall>c \<in> set t. py_isspace c"
  shows "speak t s = s
    \<and> (pc s = Getting \<and> speech_queue s = Some t # q \<longrightarrow>
         worker_step env s = s\<lparr>speech_queue := q, pc := LoopHead\<rparr>)"
proof -
  from assms have "strip t = []"
    by (simp add: strip_empty_iff)
  then show ?thesis
    by (simp add: speak_def worker_step_def speakable_def)
qed

theorem speak_blank_noop_witness:
  "list_all py_isspace (text_of ''   '') \<and> speak (text_of ''   '') started_tts = started_tts"
  using speak_blank_noop [of "text_of ''   ''" started_tts]
  by (simp add: text_of_def py_isspace_def)

text \<open>
  Claim C10. When the engine can be initialised and configured, a \<^verbatim>\<open>voice_index\<close> that is
  not below the number of voices does not make \<^verbatim>\<open>__init__\<close> fail: no voice is set (the
  calls end with the query of the voices) and the worker thread is started.
\<close>

theorem tts_init_voice_index_out_of_range:
  assumes "e_init env [] = InitEngine h"
    and "\<not> e_raises env [PyInit] (SetProperty h ''rate'' (PInt rate))"
    and "\<not> e_raises env [PyInit, SetProperty h ''rate'' (PInt rate)]
            (SetProperty h ''volume'' (PFloat 1))"
    and "\<not> e_raises env [PyInit, SetProperty h ''rate'' (PInt rate),
            SetProperty h ''volume'' (PFloat 1)] (GetVoices h)"
    and "int (length (e_voices env [PyInit, SetProperty h ''rate'' (PInt rate),
            SetProperty h ''volume'' (PFloat 1), GetVoices h] h)) \<le> voice_index"
  shows "tts_init env rate voice_index =
           Inr \<lparr>engine = h, speech_queue = [], is_running = True, worker_engine = None,
                pc = Starting,
                calls = [PyInit, SetProperty h ''rate'' (PInt rate),
                         SetProperty h ''volume'' (PFloat 1), GetVoices h]\<rparr>"
  using assms by (simp add: tts_init_def Let_def)

theorem tts_init_voice_index_out_of_range_witness:
  "tts_init good_env 100 2 =
     Inr \<lparr>engine = 0, speech_queue = [], is_running = True, worker_engine = None,
          pc = Starting,
          calls = [PyInit, SetProperty 0 ''rate'' (PInt 100),
                   SetProperty 0 ''volume'' (PFloat 1), GetVoices 0]\<rparr>"
  using tts_init_voice_index_out_of_range [of good_env 0 100 2]
  by (simp add: good_env_def two_voices_def)

section \<open>The worker\<close>

lemma step_Waiting: "pc s = Waiting h t \<Longrightarrow> worker_step env s = (snd (init_engine env s))\<lparr>pc := LoopHead\<rparr>"
  by (simp add: worker_step_def split: prod.splits)

lemma step_Stopped: "pc s = Stopped \<Longrightarrow> worker_step env s = s"
  by (simp add: worker_step_def)

lemma join_Stopped: "pc s = Stopped \<Longrightarrow> join env k s = s"
  by (cases k) simp_all

lemma act_Stopped:
  assumes "pc s = Stopped"
  shows "pc (act env a s) = Stopped"
    and "engine (act env a s) = engine s"
    and "speech_queue (act env a s) = speech_queue s @ puts a"
    and "calls (act env a s) = calls s @ caller_calls (engine s) a"
  using assms
  by (cases a; simp add: speak_def speak_blocking_def speakable_def set_property_def
        engine_call_fields stop_def step_Stopped)+

lemma run_Stopped:
  "pc s = Stopped \<Longrightarrow>
     pc (run env acts s) = Stopped
   \<and> speech_queue (run env acts s) = speech_queue s @ concat (map puts acts)
   \<and> calls (run env acts s) = calls s @ concat (map (caller_calls (engine s)) acts)"
proof (induction acts arbitrary: s)
  case Nil
  then show ?case by simp
next
  case (Cons a acts)
  from Cons.prems have "pc (act env a s) = Stopped"
    by (rule act_Stopped)
  from Cons.IH [OF this] Cons.prems show ?case
    by (simp add: act_Stopped)
qed

lemma says_caller_calls: "says (concat (map (caller_calls h) acts)) = []"
proof (induction acts)
  case Nil
  then show ?case by simp
next
  case (Cons a acts)
  then show ?case by (cases a) (simp_all add: says_append)
qed

text \<open>
  Claim C8. When the first \<^verbatim>\<open>init_engine()\<close> of the worker returns \<^verbatim>\<open>False\<close>, the thread
  returns at once. Whatever the caller and the scheduler do afterwards, the worker stays
  stopped, the queue only grows by what the caller puts on it (nothing is ever taken
  from it), and \<^verbatim>\<open>say\<close> is never called.
\<close>

theorem failed_start_is_fatal:
  assumes "pc s = Starting" and "\<not> fst (init_engine env s)"
  shows "pc (run env (Work # acts) s) = Stopped
       \<and> speech_queue (run env (Work # acts) s) = speech_queue s @ concat (map puts acts)
       \<and> says (calls (run env (Work # acts) s)) = says (calls s)"
proof -
  let ?s1 = "worker_step env s"
  from assms have s1: "?s1 = (snd (init_engine env s))\<lparr>pc := Stopped\<rparr>"
    by (cases "init_engine env s") (simp add: worker_step_def)
  then have "pc ?s1 = Stopped"
    by simp
  from run_Stopped [OF this, of env acts] s1 show ?thesis
    by (simp add: init_engine_fields says_append says_caller_calls init_engine_says)
qed

theorem failed_start_is_fatal_witness:
  "pc (run no_engine_env [Work, Speak (text_of ''hi''), Work, Work, Work] started_tts) = Stopped
   \<and> speech_queue (run no_engine_env [Work, Speak (text_of ''hi''), Work, Work, Work] started_tts)
       = [Some (text_of ''hi'')]
   \<and> says (calls (run no_engine_env [Work, Speak (text_of ''hi''), Work, Work, Work] started_tts)) = []"
  using failed_start_is_fatal [of started_tts no_engine_env "[Speak (text_of ''hi''), Work, Work, Work]"]
  by (simp add: started_tts_def no_engine_env_def good_env_def init_engine_def close_engine_def
        create_engine_def text_of_def speakable_def strip_def py_isspace_def)

text \<open>
  Claim C5. From the point where a text has been taken for speaking, the worker comes back
  to the head of its loop only through \<^verbatim>\<open>init_engine()\<close>: after one step when \<^verbatim>\<open>say\<close>
  raised (or there was no engine), after two steps when \<^verbatim>\<open>runAndWait\<close> returned or
  raised. In each case \<^verbatim>\<open>init_engine()\<close> releases the engine that the worker held for the
  utterance and then calls \<^verbatim>\<open>pyttsx3.init()\<close>; afterwards the worker holds what this call
  gave: the engine it returned, and no engine when it raised or returned \<^verbatim>\<open>None\<close>.
\<close>

theorem speaking_always_reinitializes:
  assumes "pc s = Speaking t"
  shows "\<exists>s'. worker_engine s' = worker_engine s
            \<and> speech_queue s' = speech_queue s \<and> is_running s' = is_running s
            \<and> (worker_step env s = (snd (init_engine env s'))\<lparr>pc := LoopHead\<rparr>
               \<or> (pc (worker_step env s) = Waiting (the (worker_engine s)) t
                  \<and> worker_step env (worker_step env s) = (snd (init_engine env s'))\<lparr>pc := LoopHead\<rparr>))
            \<and> (\<exists>cs. calls (snd (init_engine env s')) =
                  calls s' @ (case worker_engine s of None \<Rightarrow> [] | Some h \<Rightarrow> [EndLoop h]) @ PyInit # cs)
            \<and> worker_engine (snd (init_engine env s')) =
                  (case e_init env
                          (calls s' @ (case worker_engine s of None \<Rightarrow> [] | Some h \<Rightarrow> [EndLoop h])) of
                     InitRaises \<Rightarrow> None | InitNone \<Rightarrow> None | InitEngine h \<Rightarrow> Some h)"
proof (cases "speak_try env t s")
  case (Pair r s1)
  have f: "worker_engine s1 = worker_engine s" "speech_queue s1 = speech_queue s"
    "is_running s1 = is_running s"
    using Pair
    by (auto simp: speak_try_def then_do_def engine_call_def split: option.splits if_splits)
  obtain cs where cs: "calls (snd (init_engine env s1)) =
      calls s1 @ (case worker_engine s of None \<Rightarrow> [] | Some h \<Rightarrow> [EndLoop h]) @ PyInit # cs"
    using init_engine_calls [of env s1] f by auto
  have handle: "worker_engine (snd (init_engine env s1)) =
      (case e_init env (calls s1 @ (case worker_engine s of None \<Rightarrow> [] | Some h \<Rightarrow> [EndLoop h])) of
         InitRaises \<Rightarrow> None | InitNone \<Rightarrow> None | InitEngine h \<Rightarrow> Some h)"
    using init_engine_handle [of env s1] f by simp
  show ?thesis
  proof (cases r)
    case None
    let ?w = "s1\<lparr>pc := Waiting (the (worker_engine s)) t\<rparr>"
    from None Pair assms have w: "worker_step env s = ?w"
      by (simp add: worker_step_def)
    have "worker_step env ?w = (snd (init_engine env ?w))\<lparr>pc := LoopHead\<rparr>"
      by (rule step_Waiting) simp
    moreover have "\<exists>cs. calls (snd (init_engine env ?w)) =
      calls ?w @ (case worker_engine s of None \<Rightarrow> [] | Some h \<Rightarrow> [EndLoop h]) @ PyInit # cs"
      using init_engine_calls [of env ?w] f by auto
    moreover have "worker_engine (snd (init_engine env ?w)) =
      (case e_init env (calls ?w @ (case worker_engine s of None \<Rightarrow> [] | Some h \<Rightarrow> [EndLoop h])) of
         InitRaises \<Rightarrow> None | InitNone \<Rightarrow> None | InitEngine h \<Rightarrow> Some h)"
      using init_engine_handle [of env ?w] f by simp
    ultimately show ?thesis
      using w f by (intro exI [of _ ?w]) simp
  next
    case (Some e)
    with Pair assms have "worker_step env s = (snd (init_engine env s1))\<lparr>pc := LoopHead\<rparr>"
      by (simp add: worker_step_def)
    with f cs handle show ?thesis
      by (intro exI [of _ s1]) auto
  qed
qed


theorem speaking_always_reinitializes_witness:
  "\<exists>s'. worker_engine s' = worker_engine speaking_tts
        \<and> speech_queue s' = speech_queue speaking_tts \<and> is_running s' = is_running speaking_tts
        \<and> (worker_step good_env speaking_tts = (snd (init_engine good_env s'))\<lparr>pc := LoopHead\<rparr>
           \<or> (pc (worker_step good_env speaking_tts)
                 = Waiting (the (worker_engine speaking_tts)) (text_of ''hi'')
              \<and> worker_step good_env (worker_step good_env speaking_tts)
                 = (snd (init_engine good_env s'))\<lparr>pc := LoopHead\<rparr>))
        \<and> (\<exists>cs. calls (snd (init_engine good_env s')) =
              calls s' @ (case worker_engine speaking_tts of None \<Rightarrow> [] | Some h \<Rightarrow> [EndLoop h])
                @ PyInit # cs)
        \<and> worker_engine (snd (init_engine good_env s')) =
              (case e_init good_env
                      (calls s' @ (case worker_engine speaking_tts of None \<Rightarrow> []
                                   | Some h \<Rightarrow> [EndLoop h])) of
                 InitRaises \<Rightarrow> None | InitNone \<Rightarrow> None | InitEngine h \<Rightarrow> Some h)"
  using speaking_always_reinitializes [of speaking_tts "text_of ''hi''" good_env]
  by (simp add: speaking_tts_def)

section \<open>Processing the queue\<close>





lemma step_LoopHead:
  "pc s = LoopHead \<Longrightarrow>
     worker_step env s = (if is_running s then s\<lparr>pc := Getting\<rparr> else s\<lparr>pc := Cleanup\<rparr>)"
  by (simp add: worker_step_def)

lemma step_Getting_text:
  "pc s = Getting \<Longrightarrow> speech_queue s = Some t # q \<Longrightarrow>
     worker_step env s =
       (if speakable t then s\<lparr>speech_queue := q, pc := Speaking t\<rparr>
        else s\<lparr>speech_queue := q, pc := LoopHead\<rparr>)"
  by (simp add: worker_step_def)


lemma step_Getting_signal:
  "pc s = Getting \<Longrightarrow> speech_queue s = None # q \<Longrightarrow>
     worker_step env s = s\<lparr>speech_queue := q, pc := Cleanup\<rparr>"
  by (simp add: worker_step_def)

lemma step_Speaking:
  "pc s = Speaking t \<Longrightarrow> worker_engine s = Some h \<Longrightarrow>
     worker_step env s =
       (if e_raises env (calls s) (Say h t)
        then (snd (init_engine env (s\<lparr>calls := calls s @ [Say h t]\<rparr>)))\<lparr>pc := LoopHead\<rparr>
        else s\<lparr>calls := calls s @ [Say h t, RunAndWait h], pc := Waiting h t\<rparr>)"
  by (simp add: worker_step_def speak_try_def then_do_def engine_call_def)

lemma step_Speaking_no_engine:
  "pc s = Speaking t \<Longrightarrow> worker_engine s = None \<Longrightarrow>
     worker_step env s = (snd (init_engine env s))\<lparr>pc := LoopHead\<rparr>"
  by (simp add: worker_step_def speak_try_def)

lemma step_Cleanup:
  "pc s = Cleanup \<Longrightarrow>
     worker_step env s =
       s\<lparr>calls := calls s @ (case worker_engine s of None \<Rightarrow> [] | Some h \<Rightarrow> [EndLoop h]),
         pc := Stopped\<rparr>"
  by (simp add: worker_step_def engine_call_def split: option.splits)

lemma step_Starting:
  "pc s = Starting \<Longrightarrow>
     worker_step env s =
       (snd (init_engine env s))\<lparr>pc := (if fst (init_engine env s) then LoopHead else Stopped)\<rparr>"
  by (cases "init_engine env s") (simp add: worker_step_def)










lemma speak_puts: "speak t s = s\<lparr>speech_queue := speech_queue s @ puts (Speak t)\<rparr>"
  by (simp add: speak_def speakable_def)
















section \<open>Errors of the engine during speech\<close>






section \<open>After stop\<close>

lemma step_fields:
  "is_running (worker_step env s) = is_running s"
  "engine (worker_step env s) = engine s"
proof -
  show "is_running (worker_step env s) = is_running s"
  proof (cases "pc s")
    case Starting
    then show ?thesis by (simp add: step_Starting init_engine_fields)
  next
    case LoopHead
    then show ?thesis by (simp add: step_LoopHead)
  next
    case Getting
    then show ?thesis by (simp add: worker_step_def split: list.splits option.splits)
  next
    case (Speaking t)
    then show ?thesis
      by (cases "worker_engine s")
        (simp_all add: step_Speaking step_Speaking_no_engine init_engine_fields)
  next
    case (Waiting h t)
    then show ?thesis by (simp add: step_Waiting init_engine_fields)
  next
    case Cleanup
    then show ?thesis by (simp add: step_Cleanup)
  next
    case Stopped
    then show ?thesis by (simp add: step_Stopped)
  qed
  show "engine (worker_step env s) = engine s"
  proof (cases "pc s")
    case Starting
    then show ?thesis by (simp add: step_Starting init_engine_fields)
  next
    case LoopHead
    then show ?thesis by (simp add: step_LoopHead)
  next
    case Getting
    then show ?thesis by (simp add: worker_step_def split: list.splits option.splits)
  next
    case (Speaking t)
    then show ?thesis
      by (cases "worker_engine s")
        (simp_all add: step_Speaking step_Speaking_no_engine init_engine_fields)
  next
    case (Waiting h t)
    then show ?thesis by (simp add: step_Waiting init_engine_fields)
  next
    case Cleanup
    then show ?thesis by (simp add: step_Cleanup)
  next
    case Stopped
    then show ?thesis by (simp add: step_Stopped)
  qed
qed

lemma steps_fields:
  "is_running (steps env n s) = is_running s"
  "engine (steps env n s) = engine s"
  by (induction n arbitrary: s) (simp_all add: step_fields)

lemma join_steps: "join env k s = steps env k s"
proof (induction k arbitrary: s)
  case 0
  then show ?case by simp
next
  case (Suc k)
  show ?case
  proof (cases "pc s = Stopped")
    case True
    have "steps env n s = s" for n
      by (induction n) (simp_all add: step_Stopped True)
    with True show ?thesis by (simp add: step_Stopped)
  next
    case False
    with Suc show ?thesis by simp
  qed
qed

lemma steps_Stopped: "pc s = Stopped \<Longrightarrow> steps env n s = s"
  by (induction n) (simp_all add: step_Stopped)

lemma stop_steps:
  "stop env k s = steps env k (s\<lparr>is_running := False, speech_queue := speech_queue s @ [None]\<rparr>)"
  by (simp add: stop_def Let_def join_steps steps_Stopped)

lemma exit_step:
  assumes "\<not> is_running s" and "pc s \<noteq> Stopped"
  shows "steps_to_exit (pc (worker_step env s)) < steps_to_exit (pc s)"
proof (cases "pc s")
  case Starting
  then show ?thesis by (simp add: step_Starting)
next
  case LoopHead
  with assms show ?thesis by (simp add: step_LoopHead)
next
  case Getting
  then show ?thesis by (simp add: worker_step_def split: list.splits option.splits)
next
  case (Speaking t)
  then show ?thesis
    by (cases "worker_engine s") (simp_all add: step_Speaking step_Speaking_no_engine)
next
  case (Waiting h t)
  then show ?thesis by (simp add: step_Waiting)
next
  case Cleanup
  then show ?thesis by (simp add: step_Cleanup)
next
  case Stopped
  with assms show ?thesis by simp
qed

lemma exit_steps:
  "\<not> is_running s \<Longrightarrow> steps_to_exit (pc s) \<le> n \<Longrightarrow> pc (steps env n s) = Stopped"
proof (induction n arbitrary: s)
  case 0
  then show ?case by (cases "pc s") simp_all
next
  case (Suc n)
  show ?case
  proof (cases "pc s = Stopped")
    case True
    show ?thesis by (simp only: steps_Stopped [OF True] True)
  next
    case False
    from exit_step [OF Suc.prems(1) False, of env] Suc.prems(2)
    have "steps_to_exit (pc (worker_step env s)) \<le> n"
      by simp
    moreover have "\<not> is_running (worker_step env s)"
      using Suc.prems(1) by (simp add: step_fields)
    ultimately show ?thesis
      using Suc.IH by simp
  qed
qed

lemma steps_to_exit_le: "steps_to_exit p \<le> 5"
  by (cases p) simp_all

lemma exit_within_five: "\<not> is_running s \<Longrightarrow> 5 \<le> n \<Longrightarrow> pc (steps env n s) = Stopped"
  using steps_to_exit_le [of "pc s"] by (intro exit_steps) simp_all


lemma step_queue: "pc s \<noteq> Getting \<Longrightarrow> speech_queue (worker_step env s) = speech_queue s"
proof (cases "pc s")
  case Starting
  then show ?thesis by (simp add: step_Starting init_engine_fields)
next
  case LoopHead
  then show ?thesis by (simp add: step_LoopHead)
next
  case (Speaking t)
  then show ?thesis
    by (cases "worker_engine s")
      (simp_all add: step_Speaking step_Speaking_no_engine init_engine_fields)
next
  case (Waiting h t)
  then show ?thesis by (simp add: step_Waiting init_engine_fields)
next
  case Cleanup
  then show ?thesis by (simp add: step_Cleanup)
next
  case Stopped
  then show ?thesis by (simp add: step_Stopped)
qed simp

lemma step_not_Getting: "\<not> is_running s \<Longrightarrow> pc (worker_step env s) \<noteq> Getting"
proof (cases "pc s")
  case Starting
  then show ?thesis by (simp add: step_Starting)
next
  case LoopHead
  moreover assume "\<not> is_running s"
  ultimately show ?thesis by (simp add: step_LoopHead)
next
  case Getting
  then show ?thesis by (simp add: worker_step_def split: list.splits option.splits)
next
  case (Speaking t)
  then show ?thesis
    by (cases "worker_engine s") (simp_all add: step_Speaking step_Speaking_no_engine)
next
  case (Waiting h t)
  then show ?thesis by (simp add: step_Waiting)
next
  case Cleanup
  then show ?thesis by (simp add: step_Cleanup)
next
  case Stopped
  then show ?thesis by (simp add: step_Stopped)
qed

lemma closing_step: "closing s \<Longrightarrow> closing (worker_step env s)"
  by (simp add: closing_def step_fields step_not_Getting)

lemma committed_step:
  assumes "\<not> is_running s"
  shows "prefix (says (calls s)) (says (calls (worker_step env s)))
   \<and> prefix (says (calls (worker_step env s)) @ committed (worker_step env s))
        (says (calls s) @ committed s)"
proof (cases "pc s")
  case Starting
  then show ?thesis
    by (simp add: step_Starting init_engine_says committed_def init_engine_fields)
next
  case LoopHead
  with assms show ?thesis by (simp add: step_LoopHead committed_def)
next
  case Getting
  then show ?thesis
    by (simp add: worker_step_def committed_def split: list.splits option.splits)
next
  case (Speaking t)
  show ?thesis
  proof (cases "worker_engine s")
    case None
    with Speaking show ?thesis
      by (simp add: step_Speaking_no_engine init_engine_says committed_def init_engine_fields)
  next
    case (Some h)
    with Speaking show ?thesis
      by (simp add: step_Speaking init_engine_says committed_def init_engine_fields says_append)
  qed
next
  case (Waiting h t)
  then show ?thesis
    by (simp add: step_Waiting init_engine_says committed_def init_engine_fields)
next
  case Cleanup
  then show ?thesis
    by (simp add: step_Cleanup committed_def says_append split: option.splits)
next
  case Stopped
  then show ?thesis by (simp add: step_Stopped)
qed

lemma closing_steps:
  "closing s \<Longrightarrow>
     closing (steps env n s)
   \<and> prefix (says (calls s)) (says (calls (steps env n s)))
   \<and> prefix (says (calls (steps env n s)) @ committed (steps env n s))
        (says (calls s) @ committed s)"
proof (induction n arbitrary: s)
  case 0
  then show ?case by simp
next
  case (Suc n)
  let ?s1 = "worker_step env s"
  from Suc.prems have "closing ?s1"
    by (rule closing_step)
  moreover from Suc.prems have "\<not> is_running s"
    by (simp add: closing_def)
  ultimately show ?case
    using Suc.IH [of ?s1] committed_step [of s env] by (auto intro: prefix_order.trans)
qed


lemma committed_put:
  "closing s \<Longrightarrow> committed (s\<lparr>speech_queue := speech_queue s @ q\<rparr>) = committed s"
  by (cases "speech_queue s") (auto simp: closing_def committed_def split: wpc.splits)

lemma committed_calls: "committed (s\<lparr>calls := cs\<rparr>) = committed s"
  by (simp add: committed_def split: wpc.splits)

lemma closing_stop_begin:
  "closing (s\<lparr>is_running := False, speech_queue := speech_queue s @ [None]\<rparr>)"
  by (simp add: closing_def)

lemma closing_act:
  assumes "closing s"
  shows "closing (act env a s)
   \<and> prefix (says (calls s)) (says (calls (act env a s)))
   \<and> prefix (says (calls (act env a s)) @ committed (act env a s))
        (says (calls s) @ committed s)"
proof (cases a)
  case (Speak t)
  with assms committed_put [OF assms, of "puts (Speak t)"] show ?thesis
    by (simp add: speak_puts closing_def)
next
  case (SpeakBlocking t)
  have "speak_blocking t s = speak t s"
    by (simp add: speak_blocking_def speak_def)
  with SpeakBlocking assms committed_put [OF assms, of "puts (Speak t)"] show ?thesis
    by (simp add: speak_puts closing_def)
next
  case (SetProp name v)
  with assms show ?thesis
    by (simp add: set_property_def engine_call_def closing_def committed_calls says_append)
next
  case (Stop k)
  let ?s1 = "s\<lparr>is_running := False, speech_queue := speech_queue s @ [None]\<rparr>"
  have "?s1 = s\<lparr>speech_queue := speech_queue s @ [None]\<rparr>"
    using assms by (simp add: closing_def)
  then have c: "committed ?s1 = committed s"
    using committed_put [OF assms, of "[None]"] by simp
  have "closing ?s1"
    by (rule closing_stop_begin)
  from closing_steps [OF this, of env k] c Stop show ?thesis
    by (simp add: stop_steps)
next
  case Work
  with assms closing_steps [OF assms, of env 1] show ?thesis
    by simp
qed

lemma closing_run:
  "closing s \<Longrightarrow>
     closing (run env acts s)
   \<and> prefix (says (calls s)) (says (calls (run env acts s)))
   \<and> prefix (says (calls (run env acts s)) @ committed (run env acts s))
        (says (calls s) @ committed s)"
proof (induction acts arbitrary: s)
  case Nil
  then show ?case by simp
next
  case (Cons a acts)
  from closing_act [OF Cons.prems, of env a] Cons.IH [of "act env a s"] show ?case
    by (auto intro: prefix_order.trans)
qed

lemma stranded_step:
  assumes "\<not> is_running s"
    and "speech_queue s = pre @ Some x # post"
    and "pc s = Getting \<longrightarrow> None \<in> set pre"
  shows "\<exists>pre'. speech_queue (worker_step env s) = pre' @ Some x # post
          \<and> (pc (worker_step env s) = Getting \<longrightarrow> None \<in> set pre')"
proof (cases "pc s = Getting")
  case False
  with assms show ?thesis
    by (simp add: step_queue step_not_Getting)
next
  case True
  with assms obtain a pre' where pre: "pre = a # pre'"
    by (cases pre) auto
  with assms True have "speech_queue (worker_step env s) = pre' @ Some x # post"
    by (cases a) (simp_all add: step_Getting_signal step_Getting_text)
  with assms(1) show ?thesis
    by (simp add: step_not_Getting)
qed

lemma stranded_steps:
  "\<not> is_running s \<Longrightarrow> speech_queue s = pre @ Some x # post \<Longrightarrow>
   (pc s = Getting \<longrightarrow> None \<in> set pre) \<Longrightarrow>
     \<exists>pre'. speech_queue (steps env n s) = pre' @ Some x # post
          \<and> (pc (steps env n s) = Getting \<longrightarrow> None \<in> set pre')"
proof (induction n arbitrary: s pre)
  case 0
  then show ?case by auto
next
  case (Suc n)
  from stranded_step [OF Suc.prems, of env]
  obtain pre1 where "speech_queue (worker_step env s) = pre1 @ Some x # post"
    and "pc (worker_step env s) = Getting \<longrightarrow> None \<in> set pre1"
    by blast
  moreover from Suc.prems(1) have "\<not> is_running (worker_step env s)"
    by (simp add: step_fields)
  ultimately show ?case
    using Suc.IH [of "worker_step env s" pre1] by simp
qed

lemma stranded_act:
  assumes "\<not> is_running s"
    and "speech_queue s = pre @ Some x # post"
    and "pc s = Getting \<longrightarrow> None \<in> set pre"
  shows "\<not> is_running (act env a s)
       \<and> (\<exists>pre' post'. speech_queue (act env a s) = pre' @ Some x # post'
            \<and> (pc (act env a s) = Getting \<longrightarrow> None \<in> set pre'))"
proof (cases a)
  case (Speak t)
  with assms show ?thesis
    by (auto simp: speak_puts)
next
  case (SpeakBlocking t)
  have "speak_blocking t s = speak t s"
    by (simp add: speak_blocking_def speak_def)
  with SpeakBlocking assms show ?thesis
    by (auto simp: speak_puts)
next
  case (SetProp name v)
  with assms show ?thesis
    by (auto simp: set_property_def engine_call_def)
next
  case (Stop k)
  let ?s1 = "s\<lparr>is_running := False, speech_queue := speech_queue s @ [None]\<rparr>"
  have "\<not> is_running ?s1" and "speech_queue ?s1 = pre @ Some x # (post @ [None])"
    and "pc ?s1 = Getting \<longrightarrow> None \<in> set pre"
    using assms by simp_all
  from stranded_steps [OF this, of env k] Stop show ?thesis
    by (auto simp: stop_steps steps_fields)
next
  case Work
  with stranded_step [OF assms, of env] assms(1) show ?thesis
    by (auto simp: step_fields)
qed

lemma stranded_run:
  "\<not> is_running s \<Longrightarrow> speech_queue s = pre @ Some x # post \<Longrightarrow>
   (pc s = Getting \<longrightarrow> None \<in> set pre) \<Longrightarrow>
     Some x \<in> set (speech_queue (run env acts s))"
proof (induction acts arbitrary: s pre post)
  case Nil
  then show ?case by simp
next
  case (Cons a acts)
  from stranded_act [OF Cons.prems, of env a]
  obtain pre' post' where "\<not> is_running (act env a s)"
    and "speech_queue (act env a s) = pre' @ Some x # post'"
    and "pc (act env a s) = Getting \<longrightarrow> None \<in> set pre'"
    by blast
  from Cons.IH [OF this] show ?case
    by simp
qed

section \<open>Stopping\<close>

lemma hi_speakable: "speakable (text_of ''hi'')"
  by (simp add: speakable_def strip_def text_of_def py_isspace_def)

lemma reach_waiting:
  "run good_env [Speak (text_of ''hi''), Work, Work, Work, Work] started_tts = waiting_tts"
  by (simp add: speak_def worker_step_def init_engine_def close_engine_def create_engine_def
      then_do_def engine_call_def speak_try_def good_env_def two_voices_def started_tts_def
      waiting_tts_def text_of_def speakable_def strip_def py_isspace_def)


lemmas run_defs =
  speak_def speak_blocking_def set_property_def stop_def worker_step_def init_engine_def
  close_engine_def create_engine_def then_do_def engine_call_def speak_try_def good_env_def
  two_voices_def started_tts_def text_of_def speakable_def strip_def py_isspace_def

text \<open>
  Claim C2, as amended. \<^verbatim>\<open>stop()\<close> waits for the worker only as long as the join timeout
  allows. The worker needs at most five further steps to return (the utterance it is in
  or about to take, the reinitialisation, the test of the flag, the cleanup). When these
  fit into the join, the worker has returned when \<^verbatim>\<open>stop()\<close> returns, and from then on
  the only engine calls are those of the caller's own \<^verbatim>\<open>set_property\<close>. In every case the
  worker returns within five steps after \<^verbatim>\<open>stop()\<close>, and what is passed to \<^verbatim>\<open>say\<close> after
  \<^verbatim>\<open>stop()\<close> is at most the one text the worker was committed to.
\<close>

theorem stop_then_worker_exits:
  "(5 \<le> k \<longrightarrow>
      pc (stop env k s) = Stopped
    \<and> (\<forall>acts. calls (run env acts (stop env k s))
                = calls (stop env k s) @ concat (map (caller_calls (engine s)) acts)))
   \<and> pc (steps env 5 (stop env k s)) = Stopped
   \<and> (\<forall>acts. prefix (says (calls (run env acts (stop env k s))))
                (says (calls (stop env k s)) @ committed (stop env k s)))
   \<and> length (committed (stop env k s)) \<le> 1"
proof -
  let ?s1 = "s\<lparr>is_running := False, speech_queue := speech_queue s @ [None]\<rparr>"
  let ?s2 = "stop env k s"
  have s2: "?s2 = steps env k ?s1"
    by (rule stop_steps)
  have flag: "\<not> is_running ?s2"
    by (simp add: s2 steps_fields)
  have "closing ?s1"
    by (rule closing_stop_begin)
  then have closing: "closing ?s2"
    unfolding s2 using closing_steps by blast
  have a: "pc ?s2 = Stopped
      \<and> (\<forall>acts. calls (run env acts ?s2) = calls ?s2 @ concat (map (caller_calls (engine s)) acts))"
    if "5 \<le> k"
  proof -
    from that have stopped: "pc ?s2 = Stopped"
      unfolding s2 by (intro exit_within_five) simp_all
    have "engine ?s2 = engine s"
      by (simp add: s2 steps_fields)
    with run_Stopped [OF stopped, of env] stopped show ?thesis
      by simp
  qed
  have b: "pc (steps env 5 ?s2) = Stopped"
    using flag by (intro exit_within_five) simp_all
  have c: "prefix (says (calls (run env acts ?s2))) (says (calls ?s2) @ committed ?s2)" for acts
  proof -
    from closing_run [OF closing, of env acts]
    have "prefix (says (calls (run env acts ?s2)) @ committed (run env acts ?s2))
        (says (calls ?s2) @ committed ?s2)"
      by blast
    then show ?thesis
      by (rule append_prefixD)
  qed
  have d: "length (committed ?s2) \<le> 1"
    by (simp add: committed_def split: wpc.splits list.splits option.splits)
  from a b c d show ?thesis
    by blast
qed

theorem stop_then_worker_exits_witness:
  "pc (stop good_env 5 waiting_tts) = Stopped
   \<and> calls (run good_env [Work, Speak (text_of ''late''), Work] (stop good_env 5 waiting_tts))
       = calls (stop good_env 5 waiting_tts)"
  using stop_then_worker_exits [of 5 good_env waiting_tts, THEN conjunct1, rule_format,
      THEN conjunct2, rule_format, of "[Work, Speak (text_of ''late''), Work]"]
    stop_then_worker_exits [of 5 good_env waiting_tts, THEN conjunct1, rule_format,
      THEN conjunct1]
  by simp


text \<open>
  Claim C2, as stated, fails: \<^verbatim>\<open>stop()\<close> is called while the worker is inside
  \<^verbatim>\<open>runAndWait()\<close> and the join times out before that call ends. \<^verbatim>\<open>stop()\<close> returns,
  the worker is still running, and its next step calls the engine again.
\<close>

theorem stop_returns_while_worker_runs:
  "pc (run good_env [Speak (text_of ''hi''), Work, Work, Work, Work, Stop 0] started_tts) \<noteq> Stopped
   \<and> calls (run good_env [Speak (text_of ''hi''), Work, Work, Work, Work, Stop 0, Work] started_tts)
       \<noteq> calls (run good_env [Speak (text_of ''hi''), Work, Work, Work, Work, Stop 0] started_tts)"
  by (simp add: run_defs)







text \<open>
  Claim C9. \<^verbatim>\<open>speak(x)\<close> with a speakable text after \<^verbatim>\<open>stop()\<close> has returned puts the text
  on the queue and returns. The text stays on the queue for ever, whatever the caller
  and the worker do afterwards, and nothing is passed to \<^verbatim>\<open>say\<close> from then on but at most the
  one text the worker was committed to when \<^verbatim>\<open>stop()\<close> returned.
\<close>

theorem speak_after_stop:
  assumes "speakable x"
  shows "Some x \<in> set (speech_queue (run env acts (speak x (stop env k s))))
       \<and> prefix (says (calls (run env acts (speak x (stop env k s)))))
            (says (calls (stop env k s)) @ committed (stop env k s))"
proof -
  let ?s2 = "stop env k s"
  let ?s3 = "speak x ?s2"
  have "closing (s\<lparr>is_running := False, speech_queue := speech_queue s @ [None]\<rparr>)"
    by (rule closing_stop_begin)
  then have closing: "closing ?s2"
    unfolding stop_steps using closing_steps by blast
  have s3: "?s3 = ?s2\<lparr>speech_queue := speech_queue ?s2 @ [Some x]\<rparr>"
    using assms by (simp add: speak_puts)
  have closing3: "closing ?s3"
    using closing by (simp add: s3 closing_def)
  have same: "says (calls ?s3) @ committed ?s3 = says (calls ?s2) @ committed ?s2"
    unfolding s3 using committed_put [OF closing, of "[Some x]"] by simp
  have "\<not> is_running ?s3" and "speech_queue ?s3 = speech_queue ?s2 @ Some x # []"
    and "pc ?s3 = Getting \<longrightarrow> None \<in> set (speech_queue ?s2)"
    using closing by (simp_all add: s3 closing_def)
  then have queued: "Some x \<in> set (speech_queue (run env acts ?s3))"
    by (rule stranded_run)
  from closing_run [OF closing3, of env acts]
  have "prefix (says (calls (run env acts ?s3)) @ committed (run env acts ?s3))
      (says (calls ?s3) @ committed ?s3)"
    by blast
  then have "prefix (says (calls (run env acts ?s3))) (says (calls ?s3) @ committed ?s3)"
    by (rule append_prefixD)
  with queued same show ?thesis
    by simp
qed

theorem speak_after_stop_witness:
  "Some (text_of ''late'')
     \<in> set (speech_queue (run good_env [Work, Work, Work, Work, Work, Work]
               (speak (text_of ''late'') (stop good_env 0 waiting_tts))))
   \<and> prefix (says (calls (run good_env [Work, Work, Work, Work, Work, Work]
               (speak (text_of ''late'') (stop good_env 0 waiting_tts)))))
        (says (calls (stop good_env 0 waiting_tts)) @ committed (stop good_env 0 waiting_tts))
   \<and> says (calls (run good_env [Work, Work, Work, Work, Work, Work]
               (speak (text_of ''late'') (stop good_env 0 waiting_tts))))
       = [text_of ''hi'']"
proof -
  have "speakable (text_of ''late'')"
    by (simp add: speakable_def strip_def text_of_def py_isspace_def)
  note speak_after_stop [OF this, of good_env "[Work, Work, Work, Work, Work, Work]" 0 waiting_tts]
  moreover have "says (calls (run good_env [Work, Work, Work, Work, Work, Work]
               (speak (text_of ''late'') (stop good_env 0 waiting_tts))))
       = [text_of ''hi'']"
    by (simp add: run_defs waiting_tts_def)
  ultimately show ?thesis
    by blast
qed

lemma create_engine_rate:
  assumes "e_init env (calls s) = InitEngine h"
  shows "\<exists>cs. calls (snd (create_engine env s))
           = calls s @ PyInit # SetProperty h ''rate'' (PInt 100) # cs"
  using assms
  by (simp add: create_engine_def then_do_def engine_call_def split: list.splits)

text \<open>
  Claim C1 against the code: after \<^verbatim>\<open>set_property("rate", 150)\<close> the engines the worker
  creates, at its start and after the utterance, are still set to rate 100; the value 150
  reaches the caller's engine only.
\<close>

theorem worker_engine_ignores_set_property:
  "calls (run good_env
      [SetProp ''rate'' (PInt 150), Speak (text_of ''hi''), Work, Work, Work, Work, Work]
      started_tts)
   = [PyInit, SetProperty 0 ''rate'' (PInt 100), SetProperty 0 ''volume'' (PFloat 1),
      GetVoices 0, SetProperty 0 ''voice'' (PStr ''voice0''),
      SetProperty 0 ''rate'' (PInt 150),
      PyInit, SetProperty 1 ''rate'' (PInt 100), SetProperty 1 ''volume'' (PFloat 1),
      GetVoices 1, SetProperty 1 ''voice'' (PStr ''voice0''),
      Say 1 (text_of ''hi''), RunAndWait 1, EndLoop 1,
      PyInit, SetProperty 2 ''rate'' (PInt 100), SetProperty 2 ''volume'' (PFloat 1),
      GetVoices 2, SetProperty 2 ''voice'' (PStr ''voice0'')]"
  by (simp add: run_defs)

theorem worker_engine_ignores_set_property_witness:
  "SetProperty 2 ''rate'' (PInt 100)
     \<in> set (calls (run good_env
          [SetProp ''rate'' (PInt 150), Speak (text_of ''hi''), Work, Work, Work, Work, Work]
          started_tts))
   \<and> SetProperty 2 ''rate'' (PInt 150)
     \<notin> set (calls (run good_env
          [SetProp ''rate'' (PInt 150), Speak (text_of ''hi''), Work, Work, Work, Work, Work]
          started_tts))"
  unfolding worker_engine_ignores_set_property by simp

end
